theory Spec2Isabelle
  imports Complex_Main "HOL-Library.Multiset" "HOL-Library.Log_Nat"
begin

section \<open>Merge-insertion sort (Ford-Johnson algorithm)\<close>

text \<open>
  A shallow embedding of \<^verbatim>\<open>src/merge_insertion/__init__.py\<close>. Python's unbounded
  integers are \<^typ>\<open>int\<close> (or \<^typ>\<open>nat\<close> for counters that only grow from a
  non-negative start), Python lists are HOL lists, exceptions are values of the
  datatype \<open>error\<close>, and every loop is a recursive function.
\<close>

subsection \<open>The group-size generator\<close>

text \<open>
  \<^verbatim>\<open>
  def _group_sizes():
      prev = 0
      i = 1
      while True:
          cur = 2**i - prev
          yield cur
          prev = cur
          i += 1
  \<close>
  A generator is a state and a function that resumes it: \<open>group_sizes_next\<close> runs the
  body from after one \<^verbatim>\<open>yield\<close> to the next and returns the yielded value with the
  new state. The state holds the two local variables \<^verbatim>\<open>prev\<close> and \<^verbatim>\<open>i\<close>.
\<close>

record gen_state =
  gen_prev :: int
  gen_i :: nat

definition group_sizes_init :: gen_state where
  "group_sizes_init = \<lparr>gen_prev = 0, gen_i = 1\<rparr>"

definition group_sizes_next :: "gen_state \<Rightarrow> int \<times> gen_state" where
  "group_sizes_next st =
     (let cur = 2 ^ (gen_i st) - gen_prev st
      in (cur, \<lparr>gen_prev = cur, gen_i = gen_i st + 1\<rparr>))"

text \<open>The first \<open>n\<close> values the generator yields from a state (\<^verbatim>\<open>islice(gen, n)\<close>).\<close>

fun group_sizes_take :: "nat \<Rightarrow> gen_state \<Rightarrow> int list" where
  "group_sizes_take 0 st = []"
| "group_sizes_take (Suc n) st =
     (case group_sizes_next st of (cur, st') \<Rightarrow> cur # group_sizes_take n st')"

text \<open>The \<open>k\<close>-th value of a fresh generator, counted from 1 as the specification does.\<close>

definition group_size :: "nat \<Rightarrow> int" where
  "group_size k = group_sizes_take k group_sizes_init ! (k - 1)"

text \<open>
  The recurrence the specification (and the comment in the source) names:
  \<open>a(0) = 0\<close> and \<open>a(n) = 2^n - a(n-1)\<close>.
\<close>

fun A014113 :: "nat \<Rightarrow> int" where
  "A014113 0 = 0"
| "A014113 (Suc n) = 2 ^ (Suc n) - A014113 n"

lemma group_sizes_take_from:
  "group_sizes_take n \<lparr>gen_prev = A014113 k, gen_i = Suc k\<rparr> = map A014113 [Suc k ..< Suc k + n]"
proof (induction n arbitrary: k)
  case 0
  show ?case by simp
next
  case (Suc n)
  have "group_sizes_take (Suc n) \<lparr>gen_prev = A014113 k, gen_i = Suc k\<rparr>
      = A014113 (Suc k) # group_sizes_take n \<lparr>gen_prev = A014113 (Suc k), gen_i = Suc (Suc k)\<rparr>"
    by (simp add: group_sizes_next_def Let_def)
  also have "\<dots> = A014113 (Suc k) # map A014113 [Suc (Suc k) ..< Suc (Suc k) + n]"
    by (simp only: Suc.IH)
  also have "\<dots> = map A014113 [Suc k ..< Suc k + Suc n]"
    by (simp add: upt_rec)
  finally show ?case .
qed

lemma group_sizes_take_init:
  "group_sizes_take n group_sizes_init = map A014113 [1 ..< Suc n]"
  using group_sizes_take_from [of n 0] by (simp add: group_sizes_init_def)

lemma group_size_Suc: "group_size (Suc k) = A014113 (Suc k)"
  by (simp add: group_size_def group_sizes_take_init nth_map_upt del: upt_Suc)

lemma A014113_bounds: "0 \<le> A014113 n \<and> A014113 n \<le> 2 ^ n"
  by (induction n) auto

lemma A014113_pos: "0 < A014113 (Suc n)"
proof -
  have "A014113 n \<le> 2 ^ n" by (simp add: A014113_bounds)
  moreover have "(0::int) < 2 ^ n" by simp
  ultimately have "A014113 n < 2 * 2 ^ n" by linarith
  then show ?thesis by simp
qed

lemma A014113_adjacent: "A014113 n + A014113 (Suc n) = 2 ^ Suc n"
  by simp

text \<open>
  Claim C7. The generator emits \<open>a(1), a(2), a(3), \<dots>\<close> for the recurrence
  \<open>a(0) = 0\<close>, \<open>a(n) = 2^n - a(n-1)\<close>: the first \<open>n\<close> values it yields are
  \<open>a(1), \<dots>, a(n)\<close>, for every \<open>n\<close>. The first two values are both 2, every
  emitted value (the \<open>(k+1)\<close>-th, for any \<open>k\<close>) is positive, and the first ten
  values are 2, 2, 6, 10, 22, 42, 86, 170, 342, 682.
\<close>

theorem C7_group_sizes_sequence:
  "group_sizes_take n group_sizes_init = map A014113 [1 ..< Suc n]
   \<and> group_size (Suc k) = A014113 (Suc k)
   \<and> group_size 1 = 2 \<and> group_size 2 = 2
   \<and> 0 < group_size (Suc k)
   \<and> group_sizes_take 10 group_sizes_init = [2, 2, 6, 10, 22, 42, 86, 170, 342, 682]"
proof -
  have ten: "group_sizes_take 10 group_sizes_init = [2, 2, 6, 10, 22, 42, 86, 170, 342, 682]"
    by (simp add: group_sizes_init_def group_sizes_next_def Let_def numeral_nat)
  have one: "group_size 1 = 2"
    using group_size_Suc [of 0] by simp
  have two: "group_size 2 = 2"
    using group_size_Suc [of 1] by (simp add: numeral_2_eq_2)
  show ?thesis
    using ten one two group_sizes_take_init [of n] group_size_Suc [of k] A014113_pos [of k]
    by simp
qed

text \<open>
  Claim C8, as the specification states it: for every \<open>k \<ge> 1\<close> the two adjacent values
  \<open>g(2k-1) + g(2k)\<close> sum to \<open>2^(k+1)\<close>. This fails at \<open>k = 2\<close>: the third and fourth
  values are 6 and 10, their sum is 16, and \<open>2^3 = 8\<close>.
\<close>

theorem C8_adjacent_sum_counterexample:
  "group_size (2 * 2 - 1) + group_size (2 * 2) \<noteq> 2 ^ (2 + 1)"
proof -
  have "group_size 3 = 6"
    using group_size_Suc [of 2] by (simp add: numeral_3_eq_3)
  moreover have "group_size 4 = 10"
    using group_size_Suc [of 3] by (simp add: numeral_nat)
  ultimately show ?thesis by simp
qed

text \<open>
  Claim C8, amended: for every \<open>k \<ge> 1\<close> the two adjacent values \<open>g(2k-1) + g(2k)\<close>
  sum to \<open>2^(2k)\<close>, a power of two (the exponent is \<open>2k\<close>, not \<open>k+1\<close>; the two agree
  at \<open>k = 1\<close> only). Writing \<open>k = j + 1\<close> states it for every \<open>k \<ge> 1\<close> without a
  side condition. More generally any two adjacent values \<open>g(m) + g(m+1)\<close> with
  \<open>m \<ge> 1\<close> sum to \<open>2^(m+1)\<close>.
\<close>

theorem C8_adjacent_sum_amended:
  "group_size (2 * Suc j - 1) + group_size (2 * Suc j) = 2 ^ (2 * Suc j)
   \<and> group_size (Suc m) + group_size (Suc (Suc m)) = 2 ^ (Suc (Suc m))"
proof -
  have adj: "group_size (Suc n) + group_size (Suc (Suc n)) = 2 ^ (Suc (Suc n))" for n
    by (simp only: group_size_Suc A014113_adjacent)
  have "2 * Suc j - 1 = Suc (2 * j)" "2 * Suc j = Suc (Suc (2 * j))" by simp_all
  then show ?thesis using adj [of "2 * j"] adj [of m] by simp
qed

subsection \<open>Errors, the comparator and the record of its invocations\<close>

text \<open>
  Every exception the source can raise is a constructor. \<open>NonTermination\<close> is not an
  exception: it is the value of a call whose inner loop does not return.
\<close>

datatype error =
    DuplicateItems        \<comment> \<open>\<^verbatim>\<open>ValueError('array may not contain duplicate items')\<close>\<close>
  | ItemAlreadyPresent    \<comment> \<open>\<^verbatim>\<open>ValueError("item is already in target array")\<close>\<close>
  | IdentityLookupFailure \<comment> \<open>the \<^verbatim>\<open>IndexError\<close> of \<^verbatim>\<open>_ident_find\<close>\<close>
  | NegativeArgument      \<comment> \<open>\<^verbatim>\<open>ValueError("must specify zero or more items")\<close>\<close>
  | IndexError            \<comment> \<open>a list index out of range\<close>
  | KeyError              \<comment> \<open>a dictionary key that is missing\<close>
  | AssertionError        \<comment> \<open>a failed \<^verbatim>\<open>assert\<close>\<close>
  | NonTermination

text \<open>
  The comparator is supplied by the caller and may consult anything (a user, a network):
  it is a function of the pair and of a state \<open>'s\<close> of its own, which it may change.
  It returns \<open>True\<close> for Python's 1 (the second item ranks higher) and \<open>False\<close> for 0.
  The \<open>world\<close> threads that state through the program together with the list of
  all pairs submitted so far, oldest first (the source's parameter \<^verbatim>\<open>comp\<close> is
  written \<open>cmp\<close>, since \<open>comp\<close> is function composition in HOL); \<open>ask\<close> is one \<^verbatim>\<open>await comp((a, b))\<close>.
\<close>

type_synonym ('a, 's) comparator = "'a \<times> 'a \<Rightarrow> 's \<Rightarrow> bool \<times> 's"

record ('a, 's) world =
  cstate :: 's
  calls :: "('a \<times> 'a) list"

definition ask :: "('a, 's) comparator \<Rightarrow> 'a \<times> 'a \<Rightarrow> ('a, 's) world \<Rightarrow> bool \<times> ('a, 's) world" where
  "ask cmp ab w =
     (case cmp ab (cstate w) of
        (c, s') \<Rightarrow> (c, \<lparr>cstate = s', calls = calls w @ [ab]\<rparr>))"

text \<open>Python's \<^verbatim>\<open>xs[i]\<close> for an integer \<open>i\<close>: negative indices count from the end.\<close>

definition py_index :: "'a list \<Rightarrow> int \<Rightarrow> error + 'a" where
  "py_index xs k =
     (if 0 \<le> k \<and> k < int (length xs) then Inr (xs ! nat k)
      else if k < 0 \<and> - int (length xs) \<le> k then Inr (xs ! nat (int (length xs) + k))
      else Inl IndexError)"

subsection \<open>Binary insertion search\<close>

text \<open>
  \<^verbatim>\<open>
  async def _bin_insert_index(array, item, comp):
      if not array:
          return 0
      if item in array:
          raise ValueError("item is already in target array")
      if len(array)==1:
          return 0 if await comp((item,array[0])) else 1
      left, right = 0, len(array)-1
      while left <= right:
          mid = left + floor((right-left)/2)
          if await comp((item, array[mid])):
              right = mid - 1
          else:
              left = mid + 1
      return left
  \<close>
  The \<^verbatim>\<open>while\<close> loop is \<open>bin_search_loop\<close>; what shrinks is \<open>right - left\<close>.
  \<^verbatim>\<open>(right-left)/2\<close> is Python's true division, a float, which is exact for the list
  lengths a machine can hold; it is modelled by the real quotient.
\<close>

definition py_floor_half :: "int \<Rightarrow> int" where
  "py_floor_half d = \<lfloor>real_of_int d / 2\<rfloor>"

lemma py_floor_half_div: "py_floor_half d = d div 2"
  using floor_divide_of_int_eq [of d 2, where ?'a = real] by (simp add: py_floor_half_def)

function bin_search_loop ::
  "('a, 's) comparator \<Rightarrow> 'a list \<Rightarrow> 'a \<Rightarrow> int \<Rightarrow> int \<Rightarrow> ('a, 's) world
     \<Rightarrow> (error + int) \<times> ('a, 's) world" where
  "bin_search_loop cmp array item left right w =
     (if left \<le> right then
        (let mid = left + py_floor_half (right - left)
         in case py_index array mid of
              Inl e \<Rightarrow> (Inl e, w)
            | Inr x \<Rightarrow>
                (case ask cmp (item, x) w of
                   (c, w') \<Rightarrow>
                     if c then bin_search_loop cmp array item left (mid - 1) w'
                     else bin_search_loop cmp array item (mid + 1) right w'))
      else (Inr left, w))"
  by pat_completeness auto
termination
  by (relation "measure (\<lambda>(cmp, array, item, left, right, w). nat (right - left + 1))")
    (auto simp: py_floor_half_div)

declare bin_search_loop.simps [simp del]

definition bin_insert_index ::
  "('a, 's) comparator \<Rightarrow> 'a list \<Rightarrow> 'a \<Rightarrow> ('a, 's) world \<Rightarrow> (error + int) \<times> ('a, 's) world" where
  "bin_insert_index cmp array item w =
     (if array = [] then (Inr 0, w)
      else if item \<in> set array then (Inl ItemAlreadyPresent, w)
      else if length array = 1 then
        (case py_index array 0 of
           Inl e \<Rightarrow> (Inl e, w)
         | Inr x \<Rightarrow> (case ask cmp (item, x) w of (c, w') \<Rightarrow> (Inr (if c then 0 else 1), w')))
      else bin_search_loop cmp array item 0 (int (length array) - 1) w)"

text \<open>
  A comparator is consistent with a relation \<open>R\<close> on a set of items when, asked about
  two different items of the set, it answers 1 exactly if the first is below the second
  in \<open>R\<close>, whatever its own state. \<open>R\<close> is a strict total order on the set when it is
  irreflexive, transitive and total there.
\<close>

definition strict_total_order_on :: "'a set \<Rightarrow> ('a \<Rightarrow> 'a \<Rightarrow> bool) \<Rightarrow> bool" where
  "strict_total_order_on A R \<longleftrightarrow>
     (\<forall>a\<in>A. \<not> R a a)
     \<and> (\<forall>a\<in>A. \<forall>b\<in>A. \<forall>c\<in>A. R a b \<longrightarrow> R b c \<longrightarrow> R a c)
     \<and> (\<forall>a\<in>A. \<forall>b\<in>A. a \<noteq> b \<longrightarrow> R a b \<or> R b a)"

definition consistent_with :: "('a, 's) comparator \<Rightarrow> 'a set \<Rightarrow> ('a \<Rightarrow> 'a \<Rightarrow> bool) \<Rightarrow> bool" where
  "consistent_with cmp A R \<longleftrightarrow>
     (\<forall>a\<in>A. \<forall>b\<in>A. a \<noteq> b \<longrightarrow> (\<forall>s. fst (cmp (a, b) s) = R a b))"

lemma ask_calls: "ask cmp ab w = (c, w') \<Longrightarrow> calls w' = calls w @ [ab]"
  by (auto simp: ask_def split: prod.splits)

lemma py_index_nat: "0 \<le> i \<Longrightarrow> i < int (length xs) \<Longrightarrow> py_index xs i = Inr (xs ! nat i)"
  by (simp add: py_index_def)

lemma floorlog_half_step:
  assumes "0 < n" "k \<le> n div 2"
  shows "Suc (floorlog 2 k) \<le> floorlog 2 n"
proof -
  have "floorlog 2 k \<le> floorlog 2 (n div 2)" using assms(2) by (rule floorlog_mono)
  moreover have "floorlog 2 n = floorlog 2 (n div 2) + 1"
    using assms(1) by (subst compute_floorlog) simp
  ultimately show ?thesis by simp
qed

lemma bin_search_loop_run:
  assumes "0 \<le> left" "right < int (length array)"
  shows "\<exists>idx w' ms. bin_search_loop cmp array item left right w = (Inr idx, w')
           \<and> left \<le> idx \<and> idx \<le> max left (right + 1)
           \<and> calls w' = calls w @ map (\<lambda>m. (item, array ! m)) ms
           \<and> distinct ms \<and> (\<forall>m\<in>set ms. left \<le> int m \<and> int m \<le> right)
           \<and> length ms \<le> floorlog 2 (nat (right - left + 1))"
  using assms
proof (induction cmp array item left right w rule: bin_search_loop.induct)
  case (1 cmp array item left right w)
  show ?case
  proof (cases "left \<le> right")
    case False
    then have "bin_search_loop cmp array item left right w = (Inr left, w)"
      by (simp add: bin_search_loop.simps)
    then show ?thesis using False by (intro exI [of _ left] exI [of _ w] exI [of _ "[]"]) simp
  next
    case True
    define mid where "mid = left + py_floor_half (right - left)"
    have mid: "left \<le> mid" "mid \<le> right" "mid = left + (right - left) div 2"
      using True by (simp_all add: mid_def py_floor_half_div)
    have idx: "py_index array mid = Inr (array ! nat mid)"
      using mid "1.prems" by (intro py_index_nat) auto
    obtain c w1 where ask: "ask cmp (item, array ! nat mid) w = (c, w1)"
      by (cases "ask cmp (item, array ! nat mid) w")
    have calls1: "calls w1 = calls w @ [(item, array ! nat mid)]"
      using ask by (rule ask_calls)
    have unfold: "bin_search_loop cmp array item left right w =
        (if c then bin_search_loop cmp array item left (mid - 1) w1
         else bin_search_loop cmp array item (mid + 1) right w1)"
      using True idx ask by (simp add: bin_search_loop.simps [of cmp array item left right] mid_def Let_def)
    show ?thesis
    proof (cases c)
      case c: True
      have "\<exists>idx w' ms. bin_search_loop cmp array item left (mid - 1) w1 = (Inr idx, w')
           \<and> left \<le> idx \<and> idx \<le> max left (mid - 1 + 1)
           \<and> calls w' = calls w1 @ map (\<lambda>m. (item, array ! m)) ms
           \<and> distinct ms \<and> (\<forall>m\<in>set ms. left \<le> int m \<and> int m \<le> mid - 1)
           \<and> length ms \<le> floorlog 2 (nat (mid - 1 - left + 1))"
        using "1.IH"(1) [OF True mid_def idx ask [symmetric] c] "1.prems" mid by simp
      then obtain idx w' ms where r: "bin_search_loop cmp array item left (mid - 1) w1 = (Inr idx, w')"
          "left \<le> idx" "idx \<le> max left (mid - 1 + 1)"
          "calls w' = calls w1 @ map (\<lambda>m. (item, array ! m)) ms"
          "distinct ms" "\<forall>m\<in>set ms. left \<le> int m \<and> int m \<le> mid - 1"
          "length ms \<le> floorlog 2 (nat (mid - 1 - left + 1))"
        by blast
      have len: "Suc (length ms) \<le> floorlog 2 (nat (right - left + 1))"
      proof -
        have "nat (mid - 1 - left + 1) \<le> nat (right - left + 1) div 2"
          using mid True by (simp add: nat_div_distrib)
        then have "Suc (floorlog 2 (nat (mid - 1 - left + 1))) \<le> floorlog 2 (nat (right - left + 1))"
          using True by (intro floorlog_half_step) auto
        then show ?thesis using r(7) by linarith
      qed
      show ?thesis
        apply (intro exI [of _ idx] exI [of _ w'] exI [of _ "nat mid # ms"])
        using r c unfold calls1 mid "1.prems" len by auto
    next
      case c: False
      have "\<exists>idx w' ms. bin_search_loop cmp array item (mid + 1) right w1 = (Inr idx, w')
           \<and> mid + 1 \<le> idx \<and> idx \<le> max (mid + 1) (right + 1)
           \<and> calls w' = calls w1 @ map (\<lambda>m. (item, array ! m)) ms
           \<and> distinct ms \<and> (\<forall>m\<in>set ms. mid + 1 \<le> int m \<and> int m \<le> right)
           \<and> length ms \<le> floorlog 2 (nat (right - (mid + 1) + 1))"
        using "1.IH"(2) [OF True mid_def idx ask [symmetric] c] "1.prems" mid by simp
      then obtain idx w' ms where r: "bin_search_loop cmp array item (mid + 1) right w1 = (Inr idx, w')"
          "mid + 1 \<le> idx" "idx \<le> max (mid + 1) (right + 1)"
          "calls w' = calls w1 @ map (\<lambda>m. (item, array ! m)) ms"
          "distinct ms" "\<forall>m\<in>set ms. mid + 1 \<le> int m \<and> int m \<le> right"
          "length ms \<le> floorlog 2 (nat (right - (mid + 1) + 1))"
        by blast
      have len: "Suc (length ms) \<le> floorlog 2 (nat (right - left + 1))"
      proof -
        have "nat (right - (mid + 1) + 1) \<le> nat (right - left + 1) div 2"
          using mid True by (simp add: nat_div_distrib)
        then have "Suc (floorlog 2 (nat (right - (mid + 1) + 1))) \<le> floorlog 2 (nat (right - left + 1))"
          using True by (intro floorlog_half_step) auto
        then show ?thesis using r(7) by linarith
      qed
      show ?thesis
        apply (intro exI [of _ idx] exI [of _ w'] exI [of _ "nat mid # ms"])
        using r c unfold calls1 mid "1.prems" len by auto
    qed
  qed
qed

lemma ask_fst: "ask cmp ab w = (c, w') \<Longrightarrow> c = fst (cmp ab (cstate w))"
  by (auto simp: ask_def split: prod.splits)

lemma consistent_ask:
  assumes "consistent_with cmp A R" "a \<in> A" "b \<in> A" "a \<noteq> b" "ask cmp (a, b) w = (c, w')"
  shows "c = R a b"
  using assms ask_fst [OF assms(5)] by (auto simp: consistent_with_def)

lemma sto_trans: "strict_total_order_on A R \<Longrightarrow> a \<in> A \<Longrightarrow> b \<in> A \<Longrightarrow> c \<in> A \<Longrightarrow> R a b \<Longrightarrow> R b c \<Longrightarrow> R a c"
  unfolding strict_total_order_on_def by blast

lemma sto_irrefl: "strict_total_order_on A R \<Longrightarrow> a \<in> A \<Longrightarrow> \<not> R a a"
  unfolding strict_total_order_on_def by blast

lemma sto_total: "strict_total_order_on A R \<Longrightarrow> a \<in> A \<Longrightarrow> b \<in> A \<Longrightarrow> a \<noteq> b \<Longrightarrow> \<not> R a b \<Longrightarrow> R b a"
  unfolding strict_total_order_on_def by blast

lemma bin_search_loop_correct:
  assumes "bin_search_loop cmp array item left right w = (Inr idx, w')"
    and "strict_total_order_on A R" "consistent_with cmp A R"
    and "set array \<subseteq> A" "item \<in> A" "item \<notin> set array" "sorted_wrt R array"
    and "0 \<le> left" "right < int (length array)"
    and "\<forall>k. int k < left \<longrightarrow> R (array ! k) item"
    and "\<forall>k. right < int k \<longrightarrow> k < length array \<longrightarrow> R item (array ! k)"
  shows "(\<forall>k. int k < idx \<longrightarrow> R (array ! k) item)
       \<and> (\<forall>k. idx \<le> int k \<longrightarrow> k < length array \<longrightarrow> R item (array ! k))"
  using assms
proof (induction cmp array item left right w rule: bin_search_loop.induct)
  case (1 cmp array item left right w)
  note sto = "1.prems"(2) and con = "1.prems"(3) and sub = "1.prems"(4) and itA = "1.prems"(5)
    and notin = "1.prems"(6) and srt = "1.prems"(7) and l0 = "1.prems"(8) and rlen = "1.prems"(9)
    and below = "1.prems"(10) and above = "1.prems"(11)
  show ?case
  proof (cases "left \<le> right")
    case False
    then have "bin_search_loop cmp array item left right w = (Inr left, w)"
      by (simp add: bin_search_loop.simps)
    with "1.prems"(1) have "idx = left" by simp
    then show ?thesis using below above False by auto
  next
    case True
    define mid where "mid = left + py_floor_half (right - left)"
    have mid: "left \<le> mid" "mid \<le> right" 
      using True by (simp_all add: mid_def py_floor_half_div)
    have midlen: "nat mid < length array" using mid l0 rlen by auto
    have idx: "py_index array mid = Inr (array ! nat mid)"
      using mid l0 rlen by (intro py_index_nat) auto
    obtain c w1 where ask: "ask cmp (item, array ! nat mid) w = (c, w1)"
      by (cases "ask cmp (item, array ! nat mid) w")
    have xA: "array ! nat mid \<in> A" using midlen sub by auto
    have ne: "item \<noteq> array ! nat mid" using midlen notin by auto
    have c: "c = R item (array ! nat mid)"
      using consistent_ask [OF con itA xA ne ask] .
    have unfold: "bin_search_loop cmp array item left right w =
        (if c then bin_search_loop cmp array item left (mid - 1) w1
         else bin_search_loop cmp array item (mid + 1) right w1)"
      using True idx ask by (simp add: bin_search_loop.simps [of cmp array item left right] mid_def Let_def)
    show ?thesis
    proof (cases c)
      case ct: True
      have run: "bin_search_loop cmp array item left (mid - 1) w1 = (Inr idx, w')"
        using unfold ct "1.prems"(1) by simp
      have above': "\<forall>k. mid - 1 < int k \<longrightarrow> k < length array \<longrightarrow> R item (array ! k)"
      proof (intro allI impI)
        fix k assume k: "mid - 1 < int k" "k < length array"
        show "R item (array ! k)"
        proof (cases "k = nat mid")
          case True
          then show ?thesis using c ct by simp
        next
          case False
          then have "nat mid < k" using k mid l0 by auto
          then have "R (array ! nat mid) (array ! k)"
            using srt k by (simp add: sorted_wrt_iff_nth_less)
          moreover have "array ! k \<in> A" using k sub by auto
          ultimately show ?thesis using sto_trans [OF sto itA xA] c ct by blast
        qed
      qed
      show ?thesis
        using "1.IH"(1) [OF True mid_def idx ask [symmetric] ct run sto con sub itA notin srt l0 _ below above']
          mid rlen by simp
    next
      case cf: False
      have run: "bin_search_loop cmp array item (mid + 1) right w1 = (Inr idx, w')"
        using unfold cf "1.prems"(1) by simp
      have Rmid: "R (array ! nat mid) item"
        using sto_total [OF sto itA xA ne] c cf by simp
      have below': "\<forall>k. int k < mid + 1 \<longrightarrow> R (array ! k) item"
      proof (intro allI impI)
        fix k assume k: "int k < mid + 1"
        show "R (array ! k) item"
        proof (cases "k = nat mid")
          case True
          then show ?thesis using Rmid by simp
        next
          case False
          then have lt: "k < nat mid" using k mid l0 by auto
          then have "R (array ! k) (array ! nat mid)"
            using srt midlen by (simp add: sorted_wrt_iff_nth_less)
          moreover have "array ! k \<in> A" using lt midlen sub by auto
          ultimately show ?thesis using sto_trans [OF sto _ xA itA] Rmid by blast
        qed
      qed
      show ?thesis
        using "1.IH"(2) [OF True mid_def idx ask [symmetric] cf run sto con sub itA notin srt _ rlen below' above]
          mid l0 by simp
    qed
  qed
qed

lemma bin_insert_index_run:
  assumes "item \<notin> set array"
  shows "\<exists>idx w' ms. bin_insert_index cmp array item w = (Inr (int idx), w')
           \<and> idx \<le> length array
           \<and> calls w' = calls w @ map (\<lambda>m. (item, array ! m)) ms
           \<and> distinct ms \<and> (\<forall>m\<in>set ms. m < length array)
           \<and> length ms \<le> floorlog 2 (length array)
           \<and> (length array = 1 \<longrightarrow> length ms = 1)"
proof -
  consider "array = []" | "length array = 1" | "length array > 1"
    by (cases array) (auto simp: Suc_lessI)
  then show ?thesis
  proof cases
    case 1
    then show ?thesis
      by (intro exI [of _ 0] exI [of _ w] exI [of _ "[]"]) (simp add: bin_insert_index_def)
  next
    case 2
    then obtain x where x: "array = [x]" by (cases array) auto
    obtain c w1 where ask: "ask cmp (item, x) w = (c, w1)" by (cases "ask cmp (item, x) w")
    have "bin_insert_index cmp array item w = (Inr (if c then 0 else 1), w1)"
      using x assms ask by (simp add: bin_insert_index_def py_index_def)
    then show ?thesis
      using x ask_calls [OF ask]
      by (intro exI [of _ "if c then 0 else 1"] exI [of _ w1] exI [of _ "[0]"]) (auto simp: compute_floorlog)
  next
    case 3
    then have eq: "bin_insert_index cmp array item w
        = bin_search_loop cmp array item 0 (int (length array) - 1) w"
      using assms by (auto simp: bin_insert_index_def)
    obtain idx w' ms where r: "bin_search_loop cmp array item 0 (int (length array) - 1) w = (Inr idx, w')"
        "0 \<le> idx" "idx \<le> max 0 (int (length array) - 1 + 1)"
        "calls w' = calls w @ map (\<lambda>m. (item, array ! m)) ms"
        "distinct ms" "\<forall>m\<in>set ms. 0 \<le> int m \<and> int m \<le> int (length array) - 1"
        "length ms \<le> floorlog 2 (nat (int (length array) - 1 - 0 + 1))"
      using bin_search_loop_run [of 0 "int (length array) - 1" array cmp item w] by auto
    show ?thesis
      apply (intro exI [of _ "nat idx"] exI [of _ w'] exI [of _ ms])
      using r eq 3 by auto
  qed
qed

lemma bin_insert_index_correct:
  assumes "bin_insert_index cmp array item w = (Inr idx, w')"
    and "strict_total_order_on A R" "consistent_with cmp A R"
    and "set array \<subseteq> A" "item \<in> A" "item \<notin> set array" "sorted_wrt R array"
  shows "(\<forall>k. int k < idx \<longrightarrow> k < length array \<longrightarrow> R (array ! k) item)
       \<and> (\<forall>k. idx \<le> int k \<longrightarrow> k < length array \<longrightarrow> R item (array ! k))"
proof -
  consider "array = []" | "length array = 1" | "length array > 1"
    by (cases array) (auto simp: Suc_lessI)
  then show ?thesis
  proof cases
    case 1
    then show ?thesis by simp
  next
    case 2
    then obtain x where x: "array = [x]" by (cases array) auto
    obtain c w1 where ask: "ask cmp (item, x) w = (c, w1)" by (cases "ask cmp (item, x) w")
    have res: "bin_insert_index cmp array item w = (Inr (if c then 0 else 1), w1)"
      using x assms(6) ask by (simp add: bin_insert_index_def py_index_def)
    have xA: "x \<in> A" and ne: "item \<noteq> x" using x assms(4,6) by auto
    have c: "c = R item x" using consistent_ask [OF assms(3) assms(5) xA ne ask] .
    show ?thesis
    proof (cases c)
      case True
      then show ?thesis using res assms(1) c x by auto
    next
      case False
      then have "R x item" using sto_total [OF assms(2) assms(5) xA ne] c by simp
      then show ?thesis using res assms(1) False x by auto
    qed
  next
    case 3
    then have eq: "bin_insert_index cmp array item w
        = bin_search_loop cmp array item 0 (int (length array) - 1) w"
      using assms(6) by (auto simp: bin_insert_index_def)
    have "(\<forall>k. int k < idx \<longrightarrow> R (array ! k) item)
       \<and> (\<forall>k. idx \<le> int k \<longrightarrow> k < length array \<longrightarrow> R item (array ! k))"
      by (rule bin_search_loop_correct [OF assms(1) [unfolded eq] assms(2-7)]) auto
    then show ?thesis by blast
  qed
qed

lemma sorted_wrt_insert_at:
  assumes "sorted_wrt R xs" "idx \<le> length xs"
    and "\<forall>k. k < idx \<longrightarrow> R (xs ! k) y"
    and "\<forall>k. idx \<le> k \<longrightarrow> k < length xs \<longrightarrow> R y (xs ! k)"
  shows "sorted_wrt R (take idx xs @ y # drop idx xs)"
proof -
  have 1: "sorted_wrt R (take idx xs)" "sorted_wrt R (drop idx xs)"
    using assms(1) by (simp_all add: sorted_wrt_take sorted_wrt_drop)
  have 2: "\<forall>a\<in>set (take idx xs). R a y"
    using assms(2,3) by (auto simp: in_set_conv_nth)
  have 3: "\<forall>b\<in>set (drop idx xs). R y b"
    using assms(2,4) by (auto simp: in_set_conv_nth)
  have 4: "\<forall>a\<in>set (take idx xs). \<forall>b\<in>set (drop idx xs). R a b"
  proof (intro ballI)
    fix a b assume "a \<in> set (take idx xs)" "b \<in> set (drop idx xs)"
    then obtain i j where "i < idx" "i < length xs" "a = xs ! i" "j < length xs - idx" "b = xs ! (idx + j)"
      by (auto simp: in_set_conv_nth)
    then show "R a b" using assms(1) by (auto simp: sorted_wrt_iff_nth_less)
  qed
  show ?thesis using 1 2 3 4 by (auto simp: sorted_wrt_append)
qed

text \<open>
  Claim C3. Let \<open>S\<close> be strictly ascending under a comparator that is consistent with a
  strict total order \<open>R\<close> on the items involved, and let \<open>item\<close> be different from every
  member of \<open>S\<close>. Then \<open>bin_insert_index\<close> returns an index \<open>idx \<le> length S\<close>,
  inserting \<open>item\<close> before position \<open>idx\<close> keeps the sequence ascending, and \<open>idx\<close> is
  the only position with that property. For empty \<open>S\<close> the index is 0 and the world is
  unchanged (no comparator invocation); for \<open>S = [x]\<close> exactly the one pair
  \<open>(item, x)\<close> is submitted and the index is 0 if the comparator answers 1 and 1 if
  it answers 0.
\<close>

theorem C3_bin_insert_index:
  assumes "strict_total_order_on (insert item (set S)) R"
    and "consistent_with cmp (insert item (set S)) R"
    and "sorted_wrt R S" and "item \<notin> set S"
  shows "\<exists>idx w'. bin_insert_index cmp S item w = (Inr (int idx), w')
           \<and> idx \<le> length S
           \<and> sorted_wrt R (take idx S @ item # drop idx S)
           \<and> (\<forall>j\<le>length S. sorted_wrt R (take j S @ item # drop j S) \<longrightarrow> j = idx)
           \<and> (S = [] \<longrightarrow> idx = 0 \<and> w' = w)
           \<and> (\<forall>x. S = [x] \<longrightarrow>
                 calls w' = calls w @ [(item, x)]
                 \<and> idx = (if fst (cmp (item, x) (cstate w)) then 0 else 1))"
proof -
  let ?A = "insert item (set S)"
  obtain idx w' ms where r: "bin_insert_index cmp S item w = (Inr (int idx), w')"
      "idx \<le> length S" "calls w' = calls w @ map (\<lambda>m. (item, S ! m)) ms"
    using bin_insert_index_run [OF assms(4), of cmp w] by blast
  have pos: "(\<forall>k. int k < int idx \<longrightarrow> k < length S \<longrightarrow> R (S ! k) item)
       \<and> (\<forall>k. int idx \<le> int k \<longrightarrow> k < length S \<longrightarrow> R item (S ! k))"
    by (rule bin_insert_index_correct [OF r(1) assms(1,2) _ _ assms(4,3)]) auto
  have below: "\<And>k. k < idx \<Longrightarrow> R (S ! k) item" and above: "\<And>k. idx \<le> k \<Longrightarrow> k < length S \<Longrightarrow> R item (S ! k)"
    using pos r(2) by auto
  have ins: "sorted_wrt R (take idx S @ item # drop idx S)"
    using assms(3) r(2) below above by (intro sorted_wrt_insert_at) auto
  have uniq: "j = idx" if j: "j \<le> length S" and srt: "sorted_wrt R (take j S @ item # drop j S)" for j
  proof (rule ccontr)
    assume "j \<noteq> idx"
    then consider "j < idx" | "idx < j" by linarith
    then show False
    proof cases
      case 1
      then have jl: "j < length S" using r(2) by simp
      then have "S ! j \<in> set (drop j S)" by (metis Cons_nth_drop_Suc list.set_intros(1))
      then have "R item (S ! j)" using srt by (auto simp: sorted_wrt_append)
      moreover have "R (S ! j) item" using below 1 by simp
      moreover have "S ! j \<in> ?A" using jl by simp
      ultimately have "R item item" using sto_trans [OF assms(1), of item "S ! j" item] by simp
      then show False using sto_irrefl [OF assms(1), of item] by simp
    next
      case 2
      then have il: "idx < length S" using j by simp
      then have "S ! idx \<in> set (take j S)" using 2 by (auto simp: in_set_conv_nth)
      then have "R (S ! idx) item" using srt by (auto simp: sorted_wrt_append)
      moreover have "R item (S ! idx)" using above il by simp
      moreover have "S ! idx \<in> ?A" using il by simp
      ultimately have "R item item" using sto_trans [OF assms(1), of item "S ! idx" item] by simp
      then show False using sto_irrefl [OF assms(1), of item] by simp
    qed
  qed
  have empty: "idx = 0 \<and> w' = w" if "S = []"
    using r(1) that by (simp add: bin_insert_index_def)
  have single: "calls w' = calls w @ [(item, x)] \<and> idx = (if fst (cmp (item, x) (cstate w)) then 0 else 1)"
    if "S = [x]" for x
  proof -
    obtain c w1 where ask: "ask cmp (item, x) w = (c, w1)" by (cases "ask cmp (item, x) w")
    have "bin_insert_index cmp S item w = (Inr (if c then 0 else 1), w1)"
      using that assms(4) ask by (simp add: bin_insert_index_def py_index_def)
    with r(1) have "int idx = (if c then 0 else 1)" "w' = w1" by simp_all
    then show ?thesis using ask_calls [OF ask] ask_fst [OF ask] by (auto split: if_splits)
  qed
  show ?thesis
    apply (intro exI [of _ idx] exI [of _ w'])
    using r(1,2) ins uniq empty single by blast
qed

theorem C3_bin_insert_index_witness:
  "\<exists>idx w'. bin_insert_index (\<lambda>(a, b) s. (a < b, s)) [1, 3, 5 :: nat] 4 \<lparr>cstate = (), calls = []\<rparr>
        = (Inr (int idx), w')
     \<and> idx = 2
     \<and> sorted_wrt (<) (take idx [1, 3, 5 :: nat] @ 4 # drop idx [1, 3, 5])"
proof -
  have 1: "strict_total_order_on (insert 4 (set [1, 3, 5 :: nat])) (<)"
    by (simp add: strict_total_order_on_def)
  have 2: "consistent_with (\<lambda>(a, b) s. (a < b, s :: unit)) (insert 4 (set [1, 3, 5 :: nat])) (<)"
    by (simp add: consistent_with_def)
  have 3: "sorted_wrt (<) [1, 3, 5 :: nat]" by simp
  have 4: "(4 :: nat) \<notin> set [1, 3, 5]" by simp
  obtain idx w' where r: "bin_insert_index (\<lambda>(a, b) s. (a < b, s)) [1, 3, 5 :: nat] 4 \<lparr>cstate = (), calls = []\<rparr>
        = (Inr (int idx), w')" "idx \<le> length [1, 3, 5 :: nat]"
      "sorted_wrt (<) (take idx [1, 3, 5 :: nat] @ 4 # drop idx [1, 3, 5])"
      "\<forall>j\<le>length [1, 3, 5 :: nat]. sorted_wrt (<) (take j [1, 3, 5 :: nat] @ 4 # drop j [1, 3, 5]) \<longrightarrow> j = idx"
    using C3_bin_insert_index [OF 1 2 3 4, of "\<lparr>cstate = (), calls = []\<rparr>"] by blast
  have "sorted_wrt (<) (take 2 [1, 3, 5 :: nat] @ 4 # drop 2 [1, 3, 5])" by simp
  then have "2 = idx" using r(4) by (metis length_Cons list.size(3) numeral_2_eq_2 le_SucI le_refl numeral_3_eq_3)
  then show ?thesis using r by blast
qed

text \<open>
  Claim C10. For a target sequence \<open>S\<close> of length \<open>m \<ge> 1\<close> and an item different from
  every member of \<open>S\<close>, a call of \<open>bin_insert_index\<close> returns an index and submits at
  most \<open>\<lfloor>log\<^sub>2 m\<rfloor> + 1\<close> pairs to the comparator, whatever the comparator answers (it is
  an arbitrary function of the pair and of its own state); when \<open>m = 1\<close> it submits
  exactly one.
\<close>

theorem C10_bin_insert_index_comparisons:
  assumes "1 \<le> length S" and "item \<notin> set S"
  shows "\<exists>idx w' cs. bin_insert_index cmp S item w = (Inr idx, w')
           \<and> calls w' = calls w @ cs
           \<and> int (length cs) \<le> \<lfloor>log 2 (real (length S))\<rfloor> + 1
           \<and> (length S = 1 \<longrightarrow> length cs = 1)"
proof -
  obtain idx w' ms where r: "bin_insert_index cmp S item w = (Inr (int idx), w')"
      "calls w' = calls w @ map (\<lambda>m. (item, S ! m)) ms"
      "length ms \<le> floorlog 2 (length S)" "length S = 1 \<longrightarrow> length ms = 1"
    using bin_insert_index_run [OF assms(2), of cmp w] by blast
  have ne: "S \<noteq> []" using assms(1) by auto
  then have "0 \<le> log 2 (real (length S))"
    using assms(1) by (subst zero_le_log_cancel_iff) simp_all
  then have "0 \<le> \<lfloor>log 2 (real (length S))\<rfloor>" by simp
  then have "int (floorlog 2 (length S)) = \<lfloor>log 2 (real (length S))\<rfloor> + 1"
    using ne by (simp add: floorlog_def)
  then have "int (length (map (\<lambda>m. (item, S ! m)) ms)) \<le> \<lfloor>log 2 (real (length S))\<rfloor> + 1"
    using r(3) by simp
  then show ?thesis using r(1,2,4) by (metis length_map)
qed

theorem C10_bin_insert_index_comparisons_witness:
  "\<exists>idx w' cs. bin_insert_index (\<lambda>(a, b) s. (a < b, s)) [1, 3, 5 :: nat] 4 \<lparr>cstate = (), calls = []\<rparr>
        = (Inr idx, w')
     \<and> calls w' = [] @ cs \<and> int (length cs) \<le> \<lfloor>log 2 (real (length [1, 3, 5 :: nat]))\<rfloor> + 1"
  using C10_bin_insert_index_comparisons [of "[1, 3, 5 :: nat]" 4 "\<lambda>(a, b) s. (a < b, s)" "\<lparr>cstate = (), calls = []\<rparr>"]
  by simp

subsection \<open>The group partitioner\<close>

text \<open>
  Python's \<^verbatim>\<open>xs[lo:hi]\<close> for integers: a negative bound counts from the end, and both
  bounds are clamped to the list.
\<close>

definition py_slice :: "'a list \<Rightarrow> int \<Rightarrow> int \<Rightarrow> 'a list" where
  "py_slice xs lo hi =
     (let n = int (length xs);
          l = (if lo < 0 then max 0 (n + lo) else min lo n);
          h = (if hi < 0 then max 0 (n + hi) else min hi n)
      in take (nat (h - l)) (drop (nat l) xs))"

text \<open>
  \<^verbatim>\<open>
  def _make_groups(array):
      items = list(enumerate(array))
      rv = []
      gen = _group_sizes()
      i = 0
      while True:
          size = next(gen)
          group = items[i:i+size]
          group.reverse()
          rv.extend(group)
          if len(group)<size:
              break
          i += size
      return rv
  \<close>
  The loop is \<^verbatim>\<open>while True\<close> with a \<^verbatim>\<open>break\<close>: whether it is left depends on the sizes
  the generator yields, so it is a partial function whose value \<open>None\<close> means that it
  does not return. The source's \<^verbatim>\<open>size\<close> is written \<open>sz\<close> (\<open>size\<close> is a constant of HOL).
\<close>

partial_function (option) make_groups_loop ::
  "(nat \<times> 'a) list \<Rightarrow> gen_state \<Rightarrow> int \<Rightarrow> (nat \<times> 'a) list \<Rightarrow> (nat \<times> 'a) list option" where
  "make_groups_loop items gen i rv =
     (case group_sizes_next gen of
        (sz, gen') \<Rightarrow>
          (let group = rev (py_slice items i (i + sz));
               rv' = rv @ group
           in if int (length group) < sz then Some rv'
              else make_groups_loop items gen' (i + sz) rv'))"

definition make_groups :: "'a list \<Rightarrow> (nat \<times> 'a) list option" where
  "make_groups array = make_groups_loop (List.enumerate 0 array) group_sizes_init 0 []"

text \<open>
  The partitioner as the specification words it: draw the next group size (the
  \<open>(k+1)\<close>-th value of the generator), slice that many elements off the front of the
  remaining pending sequence, reverse the slice and append it; a slice shorter than the
  requested size is still included, reversed, and ends the process.
\<close>

function spec_make_groups :: "nat \<Rightarrow> 'a list \<Rightarrow> 'a list" where
  "spec_make_groups k pending =
     (let sz = nat (group_size (Suc k))
      in if length pending < sz then rev pending
         else rev (take sz pending) @ spec_make_groups (Suc k) (drop sz pending))"
  by pat_completeness auto
termination
proof (relation "measure (\<lambda>(k, pending). length pending)")
  show "wf (measure (\<lambda>(k, pending :: 'a list). length pending))" by simp
next
  fix k :: nat and pending :: "'a list" and sz :: nat
  assume sz: "sz = nat (group_size (Suc k))" and ge: "\<not> length pending < sz"
  have "0 < sz" using sz A014113_pos [of k] by (simp add: group_size_Suc)
  then show "((Suc k, drop sz pending), (k, pending)) \<in> measure (\<lambda>(k, pending). length pending)"
    using ge by simp
qed

declare spec_make_groups.simps [simp del]

lemma py_slice_nonneg:
  assumes "0 \<le> lo" "lo \<le> hi"
  shows "py_slice xs lo hi = take (nat (hi - lo)) (drop (nat lo) xs)"
proof (cases "lo \<le> int (length xs)")
  case False
  then show ?thesis using assms by (simp add: py_slice_def Let_def)
next
  case True
  show ?thesis
  proof (cases "hi \<le> int (length xs)")
    case True
    then show ?thesis using assms \<open>lo \<le> int (length xs)\<close>
      by (simp add: py_slice_def Let_def min_def)
  next
    case False
    then have "nat (int (length xs) - lo) = length (drop (nat lo) xs)" using assms True by simp
    moreover have "length (drop (nat lo) xs) \<le> nat (hi - lo)" using assms False by simp
    ultimately show ?thesis using assms True False
      by (simp add: py_slice_def Let_def min_def)
  qed
qed

lemma make_groups_loop_spec:
  assumes "0 \<le> i" "drop (nat i) items = pending"
  shows "make_groups_loop items \<lparr>gen_prev = A014113 k, gen_i = Suc k\<rparr> i rv
           = Some (rv @ spec_make_groups k pending)"
  using assms
proof (induction k pending arbitrary: i rv rule: spec_make_groups.induct)
  case (1 k pending)
  define sz where "sz = A014113 (Suc k)"
  have szpos: "0 < sz" using A014113_pos [of k] by (simp add: sz_def)
  have next_eq: "group_sizes_next \<lparr>gen_prev = A014113 k, gen_i = Suc k\<rparr>
      = (sz, \<lparr>gen_prev = A014113 (Suc k), gen_i = Suc (Suc k)\<rparr>)"
    by (simp add: group_sizes_next_def Let_def sz_def)
  have slice: "py_slice items i (i + sz) = take (nat sz) pending"
    using py_slice_nonneg [of i "i + sz" items] "1.prems" szpos by simp
  have gs: "nat (group_size (Suc k)) = nat sz" by (simp add: group_size_Suc sz_def)
  show ?case
  proof (cases "length pending < nat sz")
    case True
    then have "int (length (rev (py_slice items i (i + sz)))) < sz"
      using slice szpos by simp
    moreover have "take (nat sz) pending = pending" using True by simp
    ultimately have "make_groups_loop items \<lparr>gen_prev = A014113 k, gen_i = Suc k\<rparr> i rv
        = Some (rv @ rev pending)"
      using slice by (subst make_groups_loop.simps) (simp add: next_eq Let_def)
    moreover have "spec_make_groups k pending = rev pending"
      using True gs by (subst spec_make_groups.simps) (simp add: Let_def)
    ultimately show ?thesis by simp
  next
    case False
    then have nlt: "\<not> int (length (rev (py_slice items i (i + sz)))) < sz"
      using slice szpos by simp
    have drop': "drop (nat (i + sz)) items = drop (nat sz) pending"
    proof -
      have "nat (i + sz) = nat sz + nat i" using "1.prems"(1) szpos by (simp add: nat_add_distrib)
      then show ?thesis using "1.prems"(2) by (simp add: drop_drop [symmetric] del: drop_drop)
    qed
    have IH: "make_groups_loop items \<lparr>gen_prev = A014113 (Suc k), gen_i = Suc (Suc k)\<rparr> (i + sz)
          (rv @ rev (take (nat sz) pending))
        = Some ((rv @ rev (take (nat sz) pending)) @ spec_make_groups (Suc k) (drop (nat sz) pending))"
      using "1.IH" [OF gs [symmetric] _ _ drop'] False gs "1.prems" szpos by simp
    have "make_groups_loop items \<lparr>gen_prev = A014113 k, gen_i = Suc k\<rparr> i rv
        = make_groups_loop items \<lparr>gen_prev = A014113 (Suc k), gen_i = Suc (Suc k)\<rparr> (i + sz)
            (rv @ rev (take (nat sz) pending))"
      using nlt slice by (subst make_groups_loop.simps) (simp add: next_eq Let_def)
    moreover have "spec_make_groups k pending
        = rev (take (nat sz) pending) @ spec_make_groups (Suc k) (drop (nat sz) pending)"
      using False gs by (subst spec_make_groups.simps) (simp add: Let_def)
    ultimately show ?thesis using IH by simp
  qed
qed

lemma make_groups_eq: "make_groups array = Some (spec_make_groups 0 (List.enumerate 0 array))"
  using make_groups_loop_spec [of 0 "List.enumerate 0 array" "List.enumerate 0 array" 0 "[]"]
  by (simp add: make_groups_def group_sizes_init_def)

lemma mset_spec_make_groups: "mset (spec_make_groups k pending) = mset pending"
proof (induction k pending rule: spec_make_groups.induct)
  case (1 k pending)
  show ?case
  proof (cases "length pending < nat (group_size (Suc k))")
    case True
    then show ?thesis by (subst spec_make_groups.simps) (simp add: Let_def)
  next
    case False
    have "mset (spec_make_groups k pending)
        = mset (take (nat (group_size (Suc k))) pending)
          + mset (spec_make_groups (Suc k) (drop (nat (group_size (Suc k))) pending))"
      using False by (subst spec_make_groups.simps) (simp add: Let_def)
    also have "\<dots> = mset (take (nat (group_size (Suc k))) pending)
          + mset (drop (nat (group_size (Suc k))) pending)"
      using "1.IH" [OF refl False] by simp
    also have "\<dots> = mset pending"
      by (metis append_take_drop_id mset_append)
    finally show ?thesis .
  qed
qed

lemma make_groups_example:
  "make_groups [''y3'', ''y4'', ''y5'', ''y6'', ''y7'', ''y8'', ''y9'', ''y10'', ''y11'', ''y12'', ''y21'', ''y22'']
     = Some [(1, ''y4''), (0, ''y3''), (3, ''y6''), (2, ''y5''),
             (9, ''y12''), (8, ''y11''), (7, ''y10''), (6, ''y9''), (5, ''y8''), (4, ''y7''),
             (11, ''y22''), (10, ''y21'')]"
  by (simp add: make_groups_def make_groups_loop.simps group_sizes_init_def group_sizes_next_def
      py_slice_def Let_def enumerate_eq_zip upt_rec)

lemma make_groups_Nil: "make_groups ([] :: 'a list) = Some []"
  by (simp add: make_groups_def make_groups_loop.simps group_sizes_init_def group_sizes_next_def
      py_slice_def Let_def enumerate_eq_zip)

text \<open>
  Claim C4. For every input sequence, \<open>make_groups\<close> returns; its output is the input,
  tagged with positions, cut into groups of the successive sizes drawn from the
  generator, each group reversed, up to and including the first short group
  (\<open>spec_make_groups\<close>). It is a rearrangement of the tagged input, so every input
  element occurs exactly once and the length is the input's. The empty input gives the
  empty output, and the 12-element example of the specification gives
  \<open>y4, y3, y6, y5, y12, y11, y10, y9, y8, y7, y22, y21\<close> (with the original positions as
  tags).
\<close>

theorem C4_make_groups:
  "\<exists>ys. make_groups xs = Some ys
      \<and> ys = spec_make_groups 0 (List.enumerate 0 xs)
      \<and> mset ys = mset (List.enumerate 0 xs)
      \<and> mset (map snd ys) = mset xs
      \<and> length ys = length xs
      \<and> make_groups ([] :: 'a list) = Some []
      \<and> make_groups [''y3'', ''y4'', ''y5'', ''y6'', ''y7'', ''y8'', ''y9'', ''y10'', ''y11'', ''y12'', ''y21'', ''y22'']
          = Some [(1, ''y4''), (0, ''y3''), (3, ''y6''), (2, ''y5''),
             (9, ''y12''), (8, ''y11''), (7, ''y10''), (6, ''y9''), (5, ''y8''), (4, ''y7''),
             (11, ''y22''), (10, ''y21'')]"
proof -
  let ?ys = "spec_make_groups 0 (List.enumerate 0 xs)"
  have m: "mset ?ys = mset (List.enumerate 0 xs)" by (rule mset_spec_make_groups)
  then have "mset (map snd ?ys) = mset (map snd (List.enumerate 0 xs))"
    by (metis mset_map)
  then have s: "mset (map snd ?ys) = mset xs" by (simp add: enumerate_eq_zip)
  have "size (mset ?ys) = size (mset (List.enumerate 0 xs))" using m by simp
  then have l: "length ?ys = length xs" by simp
  show ?thesis
    using make_groups_eq [of xs] m s l make_groups_Nil make_groups_example by blast
qed

subsection \<open>The bound on the number of comparisons\<close>

text \<open>
  \<^verbatim>\<open>
  def merge_insertion_max_comparisons(n):
      if n<0:
          raise ValueError("must specify zero or more items")
      return n*ceil(log2(3*n/4)) - floor((2**floor(log2(6*n)))/3) + floor(log2(6*n)/2) if n else 0
  \<close>
  \<^verbatim>\<open>3*n/4\<close>, \<^verbatim>\<open>log2\<close> and the two other divisions are floating-point operations in the
  source. They are modelled by the real numbers: the quotient and the base-2 logarithm
  are exact here. \<^verbatim>\<open>2**floor(...)\<close> is a power of integers: the exponent is not
  negative for \<open>n \<ge> 1\<close>.
\<close>

definition merge_insertion_max_comparisons :: "int \<Rightarrow> error + int" where
  "merge_insertion_max_comparisons n =
     (if n < 0 then Inl NegativeArgument
      else if n \<noteq> 0 then
        Inr (n * \<lceil>log 2 (real_of_int (3 * n) / 4)\<rceil>
             - \<lfloor>real_of_int (2 ^ nat \<lfloor>log 2 (real_of_int (6 * n))\<rfloor>) / 3\<rfloor>
             + \<lfloor>log 2 (real_of_int (6 * n)) / 2\<rfloor>)
      else Inr 0)"

text \<open>
  The same number without real arithmetic: with \<open>f = \<lfloor>log\<^sub>2 (6 n)\<rfloor>\<close>, one less than the
  number of binary digits of \<open>6 n\<close>, the value is \<open>n (f - 2) - \<lfloor>2^f / 3\<rfloor> + \<lfloor>f / 2\<rfloor>\<close>.
\<close>

definition fj_closed :: "nat \<Rightarrow> int" where
  "fj_closed m =
     (let f = floorlog 2 (6 * m) - 1
      in int m * (int f - 2) - 2 ^ f div 3 + int (f div 2))"

lemma three_not_dvd_power_of_two: "(2::nat) ^ f mod 3 \<noteq> 0"
proof (induction f)
  case 0
  show ?case by simp
next
  case (Suc f)
  have "(2 * 2 ^ f) mod 3 = (2 * (2 ^ f mod 3)) mod (3::nat)"
    by (simp add: mod_mult_right_eq)
  moreover have "(2 * k) mod 3 \<noteq> 0" if "k mod 3 \<noteq> 0" for k :: nat
    using that by presburger
  ultimately show ?case using Suc by simp
qed

lemma six_not_power_of_two: "6 * m \<noteq> (2::nat) ^ f"
proof
  assume eq: "6 * m = (2::nat) ^ f"
  have "(6 * m) mod 3 = 0" by presburger
  then show False using eq three_not_dvd_power_of_two [of f] by simp
qed

lemma floor_log2_six:
  assumes "0 < m"
  shows "\<lfloor>log 2 (real (6 * m))\<rfloor> = int (floorlog 2 (6 * m) - 1)"
proof -
  have "1 \<le> real (6 * m)" using assms by simp
  then have "0 \<le> log 2 (real (6 * m))" by (subst zero_le_log_cancel_iff) simp_all
  then have "0 \<le> \<lfloor>log 2 (real (6 * m))\<rfloor>" by simp
  then show ?thesis using assms by (simp add: floorlog_def)
qed

lemma ceiling_log2_three_quarters:
  assumes "0 < m"
  shows "\<lceil>log 2 (real (3 * m) / 4)\<rceil> = int (floorlog 2 (6 * m) - 1) - 2"
proof -
  define f where "f = floorlog 2 (6 * m) - 1"
  have fl: "\<lfloor>log 2 (real (6 * m))\<rfloor> = int f" using floor_log2_six [OF assms] by (simp add: f_def)
  have pos: "0 < real (6 * m)" using assms by simp
  have "0 < 6 * m" using assms by simp
  then have bnd: "2 ^ f \<le> 6 * m"
    using floorlog_bounds [of "6 * m" 2] unfolding f_def by simp
  have ne: "6 * m \<noteq> 2 ^ f" by (rule six_not_power_of_two)
  with bnd have lt: "2 ^ f < 6 * m" by simp
  have "real (2 ^ f) < real (6 * m)" using lt by (rule iffD2 [OF of_nat_less_iff])
  then have "log 2 (real (2 ^ f)) < log 2 (real (6 * m))"
    using pos by (subst log_less_cancel_iff) simp_all
  then have lo: "real f < log 2 (real (6 * m))" by simp
  have hi: "log 2 (real (6 * m)) < real f + 1" using fl by linarith
  have "real (3 * m) / 4 = real (6 * m) / 8" by simp
  then have "log 2 (real (3 * m) / 4) = log 2 (real (6 * m)) - log 2 8"
    using pos by (simp only: log_divide_pos) 
  moreover have "log 2 8 = (3::real)" using log_pow_cancel [of 2 3] by simp
  ultimately have eq: "log 2 (real (3 * m) / 4) = log 2 (real (6 * m)) - 3" by simp
  show ?thesis unfolding f_def [symmetric]
    by (rule iffD2 [OF ceiling_eq_iff]) (use lo hi eq in simp)
qed

lemma max_comparisons_closed:
  assumes "0 < m"
  shows "merge_insertion_max_comparisons (int m) = Inr (fj_closed m)"
proof -
  define f where "f = floorlog 2 (6 * m) - 1"
  have fl: "\<lfloor>log 2 (6 * real m)\<rfloor> = int f"
    using floor_log2_six [OF assms] by (simp add: f_def)
  have ce: "\<lceil>log 2 (3 * real m / 4)\<rceil> = int f - 2"
    using ceiling_log2_three_quarters [OF assms] by (simp add: f_def)
  have d1: "\<lfloor>(2::real) ^ f / 3\<rfloor> = 2 ^ f div 3"
    using floor_divide_of_int_eq [of "2 ^ f" 3, where ?'a = real] by simp
  have d2: "\<lfloor>log 2 (6 * real m) / 2\<rfloor> = int f div 2"
    using floor_divide_real_eq_div [of 2 "log 2 (6 * real m)"] fl by simp
  have "merge_insertion_max_comparisons (int m)
      = Inr (int m * (int f - 2) - 2 ^ f div 3 + int f div 2)"
    using assms by (simp add: merge_insertion_max_comparisons_def fl ce d1 d2)
  also have "int m * (int f - 2) - 2 ^ f div 3 + int f div 2 = fj_closed m"
    by (simp add: fj_closed_def Let_def f_def zdiv_int)
  finally show ?thesis .
qed

lemma fj_closed_values:
  "map fj_closed [1, 2, 3, 4, 5, 6, 7, 8, 9, 10] = [0, 1, 3, 5, 7, 10, 13, 16, 19, 22]"
  by (simp add: fj_closed_def compute_floorlog Let_def)

text \<open>
  Claim C5. \<open>merge_insertion_max_comparisons\<close> raises the negative-argument error for
  every \<open>n < 0\<close>, returns 0 for \<open>n = 0\<close>, and for \<open>n = 1, \<dots>, 10\<close> the closed-form
  expression (with real logarithms, floor and ceiling) has the values
  0, 1, 3, 5, 7, 10, 13, 16, 19, 22.
\<close>

theorem C5_max_comparisons:
  "(n < 0 \<longrightarrow> merge_insertion_max_comparisons n = Inl NegativeArgument)
   \<and> merge_insertion_max_comparisons 0 = Inr 0
   \<and> map merge_insertion_max_comparisons [1, 2, 3, 4, 5, 6, 7, 8, 9, 10]
       = map Inr [0, 1, 3, 5, 7, 10, 13, 16, 19, 22]"
proof -
  have neg: "n < 0 \<longrightarrow> merge_insertion_max_comparisons n = Inl NegativeArgument"
    by (simp add: merge_insertion_max_comparisons_def)
  have zero: "merge_insertion_max_comparisons 0 = Inr 0"
    by (simp add: merge_insertion_max_comparisons_def)
  have fj: "fj_closed 1 = 0" "fj_closed 2 = 1" "fj_closed 3 = 3" "fj_closed 4 = 5"
      "fj_closed 5 = 7" "fj_closed 6 = 10" "fj_closed 7 = 13" "fj_closed 8 = 16"
      "fj_closed 9 = 19" "fj_closed 10 = 22"
    using fj_closed_values by simp_all
  have fj1: "fj_closed (Suc 0) = 0" using fj(1) by simp
  have vals: "map merge_insertion_max_comparisons [1, 2, 3, 4, 5, 6, 7, 8, 9, 10]
       = map Inr [0, 1, 3, 5, 7, 10, 13, 16, 19, 22]"
    using max_comparisons_closed [of 1] max_comparisons_closed [of 2]
      max_comparisons_closed [of 3] max_comparisons_closed [of 4]
      max_comparisons_closed [of 5] max_comparisons_closed [of 6]
      max_comparisons_closed [of 7] max_comparisons_closed [of 8]
      max_comparisons_closed [of 9] max_comparisons_closed [of 10]
    by (simp add: fj fj1)
  show ?thesis using neg zero vals by blast
qed

theorem C5_max_comparisons_witness:
  "merge_insertion_max_comparisons (- 1) = Inl NegativeArgument
   \<and> merge_insertion_max_comparisons 0 = Inr 0"
  using C5_max_comparisons [of "- 1"] by simp

subsection \<open>The merge-insertion driver\<close>

text \<open>
  The dictionary \<^verbatim>\<open>pairs\<close> (larger item to smaller item) is an association list in
  insertion order, as a Python \<^verbatim>\<open>dict\<close> iterates: assigning to a key that is present
  replaces its value in place, assigning to a new key appends.
\<close>

fun dict_set :: "('k \<times> 'v) list \<Rightarrow> 'k \<Rightarrow> 'v \<Rightarrow> ('k \<times> 'v) list" where
  "dict_set [] k v = [(k, v)]"
| "dict_set ((k', v') # d) k v =
     (if k' = k then (k', v) # d else (k', v') # dict_set d k v)"

definition dict_get :: "('k \<times> 'v) list \<Rightarrow> 'k \<Rightarrow> error + 'v" where
  "dict_get d k = (case map_of d k of None \<Rightarrow> Inl KeyError | Some v \<Rightarrow> Inr v)"

text \<open>
  Steps 1 and 2, the loop
  \<^verbatim>\<open>
  for i in range(0, len(array)-1, 2):
      if await comparator((array[i], array[i+1])):
          pairs[array[i+1]] = array[i]
      else:
          pairs[array[i]] = array[i+1]
  \<close>
  The guard \<open>i + 1 < length array\<close> is \<^verbatim>\<open>i < len(array)-1\<close>; under it both reads are
  in range.
\<close>

function make_pairs ::
  "('a, 's) comparator \<Rightarrow> 'a list \<Rightarrow> nat \<Rightarrow> ('a \<times> 'a) list \<Rightarrow> ('a, 's) world
     \<Rightarrow> ('a \<times> 'a) list \<times> ('a, 's) world" where
  "make_pairs comparator array i pairs w =
     (if i + 1 < length array then
        (case ask comparator (array ! i, array ! (i + 1)) w of
           (c, w') \<Rightarrow>
             make_pairs comparator array (i + 2)
               (if c then dict_set pairs (array ! (i + 1)) (array ! i)
                else dict_set pairs (array ! i) (array ! (i + 1))) w')
      else (pairs, w))"
  by pat_completeness auto
termination
  by (relation "measure (\<lambda>(comparator, array, i, pairs, w). length array - i)") auto

declare make_pairs.simps [simp del]

text \<open>
  The main chain is a Python list of lists, and the same inner lists are reached from
  the queue of groups: \<^verbatim>\<open>pair.pop()\<close> changes a slot that the main chain holds, and
  \<^verbatim>\<open>_ident_find\<close> compares slots by identity. So slots live in a store: a \<open>heap\<close> is
  the list of all slots allocated so far, a reference is a position in it, a new slot
  is appended, and the main chain and the queue are lists of references.
  \<^verbatim>\<open>
  def _ident_find(array, item):
      for i,e in enumerate(array):
          if e is item:
              return i
      raise IndexError(f"failed to find item {item!r} in array")
  \<close>
\<close>

type_synonym ref = nat

type_synonym 'a heap = "'a list list"

fun ident_find :: "ref list \<Rightarrow> ref \<Rightarrow> error + nat" where
  "ident_find [] item = Inl IdentityLookupFailure"
| "ident_find (e # array) item =
     (if e = item then Inr 0
      else case ident_find array item of Inl err \<Rightarrow> Inl err | Inr k \<Rightarrow> Inr (Suc k))"

text \<open>\<^verbatim>\<open>[ i[0] for i in main_chain ]\<close>: the first item of every slot.\<close>

fun firsts :: "'a heap \<Rightarrow> ref list \<Rightarrow> error + 'a list" where
  "firsts heap [] = Inr []"
| "firsts heap (r # rs) =
     (case py_index (heap ! r) 0 of
        Inl e \<Rightarrow> Inl e
      | Inr x \<Rightarrow> (case firsts heap rs of Inl e \<Rightarrow> Inl e | Inr xs \<Rightarrow> Inr (x # xs)))"

text \<open>\<^verbatim>\<open>xs.insert(k, x)\<close> for an integer \<open>k\<close>: the position is clamped to the list.\<close>

definition py_insert :: "'b list \<Rightarrow> int \<Rightarrow> 'b \<Rightarrow> 'b list" where
  "py_insert xs k x =
     (let n = int (length xs);
          j = (if k < 0 then max 0 (n + k) else min k n)
      in take (nat j) xs @ x # drop (nat j) xs)"

text \<open>
  \<^verbatim>\<open>[ [ pairs[larger[0]] ], [ larger[0] ] ] + [ [ la, pairs[la] ] for la in larger[1:] ]\<close>:
  the contents of the slots of the initial main chain, in order.
\<close>

fun pair_slots :: "('a \<times> 'a) list \<Rightarrow> 'a list \<Rightarrow> error + 'a list list" where
  "pair_slots pairs [] = Inr []"
| "pair_slots pairs (la # rest) =
     (case dict_get pairs la of
        Inl e \<Rightarrow> Inl e
      | Inr s \<Rightarrow>
          (case pair_slots pairs rest of Inl e \<Rightarrow> Inl e | Inr ss \<Rightarrow> Inr ([la, s] # ss)))"

definition build_main_chain :: "('a \<times> 'a) list \<Rightarrow> 'a list \<Rightarrow> error + 'a list list" where
  "build_main_chain pairs larger =
     (case larger of
        [] \<Rightarrow> Inl IndexError
      | la0 # rest \<Rightarrow>
          (case dict_get pairs la0 of
             Inl e \<Rightarrow> Inl e
           | Inr s0 \<Rightarrow>
               (case pair_slots pairs rest of
                  Inl e \<Rightarrow> Inl e
                | Inr ss \<Rightarrow> Inr ([s0] # [la0] # ss))))"

text \<open>
  The body of the insertion loop, for one \<^verbatim>\<open>pair\<close> of the queue:
  \<^verbatim>\<open>
  if len(pair)==1:
      item = pair[0]
      idx = await _bin_insert_index([ i[0] for i in main_chain ], item, comparator)
  else:
      assert len(pair)==2
      pair_idx = _ident_find(main_chain, pair)
      item = pair.pop()
      idx = await _bin_insert_index([ i[0] for i in main_chain[:pair_idx] ], item, comparator)
  main_chain.insert(idx, [item])
  \<close>
\<close>

definition insert_step ::
  "('a, 's) comparator \<Rightarrow> ref \<Rightarrow> 'a heap \<Rightarrow> ref list \<Rightarrow> ('a, 's) world
     \<Rightarrow> (error + 'a heap \<times> ref list) \<times> ('a, 's) world" where
  "insert_step comparator pair heap main_chain w =
     (if length (heap ! pair) = 1 then
        (case py_index (heap ! pair) 0 of
           Inl e \<Rightarrow> (Inl e, w)
         | Inr item \<Rightarrow>
             (case firsts heap main_chain of
                Inl e \<Rightarrow> (Inl e, w)
              | Inr target \<Rightarrow>
                  (case bin_insert_index comparator target item w of
                     (Inl e, w') \<Rightarrow> (Inl e, w')
                   | (Inr idx, w') \<Rightarrow>
                       (Inr (heap @ [[item]], py_insert main_chain idx (length heap)), w'))))
      else if length (heap ! pair) \<noteq> 2 then (Inl AssertionError, w)
      else
        (case ident_find main_chain pair of
           Inl e \<Rightarrow> (Inl e, w)
         | Inr pair_idx \<Rightarrow>
             (let item = last (heap ! pair);
                  heap1 = heap [pair := butlast (heap ! pair)]
              in case firsts heap1 (take pair_idx main_chain) of
                   Inl e \<Rightarrow> (Inl e, w)
                 | Inr target \<Rightarrow>
                     (case bin_insert_index comparator target item w of
                        (Inl e, w') \<Rightarrow> (Inl e, w')
                      | (Inr idx, w') \<Rightarrow>
                          (Inr (heap1 @ [[item]], py_insert main_chain idx (length heap1)), w')))))"

text \<open>\<^verbatim>\<open>for _,pair in groups: ...\<close>, stopping at the first exception.\<close>

fun insert_loop ::
  "('a, 's) comparator \<Rightarrow> (nat \<times> ref) list \<Rightarrow> 'a heap \<Rightarrow> ref list \<Rightarrow> ('a, 's) world
     \<Rightarrow> (error + 'a heap \<times> ref list) \<times> ('a, 's) world" where
  "insert_loop comparator [] heap main_chain w = (Inr (heap, main_chain), w)"
| "insert_loop comparator ((_, pair) # rest) heap main_chain w =
     (case insert_step comparator pair heap main_chain w of
        (Inl e, w') \<Rightarrow> (Inl e, w')
      | (Inr (heap', main_chain'), w') \<Rightarrow> insert_loop comparator rest heap' main_chain' w')"

text \<open>
  Everything of \<^verbatim>\<open>merge_insertion_sort\<close> after the recursive call: the main chain is
  built (its slots get the references \<open>0, 1, 2, \<dots>\<close> in order), the leftover item of
  an odd-length input gets a slot of its own after them, the queue is grouped, every
  queued slot is inserted, and the first items of the final chain are returned.
\<close>

definition insert_phase ::
  "('a, 's) comparator \<Rightarrow> 'a list \<Rightarrow> ('a \<times> 'a) list \<Rightarrow> 'a list \<Rightarrow> ('a, 's) world
     \<Rightarrow> (error + 'a list) \<times> ('a, 's) world" where
  "insert_phase comparator array pairs larger w =
     (case build_main_chain pairs larger of
        Inl e \<Rightarrow> (Inl e, w)
      | Inr slots \<Rightarrow>
          (let main_chain = [0 ..< length slots]
           in if \<not> list_all (\<lambda>r. length (slots ! r) = 2) (drop 2 main_chain)
              then (Inl AssertionError, w)
              else
                (case (if length array mod 2 \<noteq> 0
                       then (case py_index array (- 1) of
                               Inl e \<Rightarrow> Inl e
                             | Inr x \<Rightarrow> Inr (slots @ [[x]], drop 2 main_chain @ [length slots]))
                       else Inr (slots, drop 2 main_chain)) of
                   Inl e \<Rightarrow> (Inl e, w)
                 | Inr (heap, queue) \<Rightarrow>
                     (case make_groups queue of
                        None \<Rightarrow> (Inl NonTermination, w)
                      | Some groups \<Rightarrow>
                          (case insert_loop comparator groups heap main_chain w of
                             (Inl e, w') \<Rightarrow> (Inl e, w')
                           | (Inr (heap', main_chain'), w') \<Rightarrow>
                               if \<not> list_all (\<lambda>r. length (heap' ! r) = 1) main_chain'
                               then (Inl AssertionError, w')
                               else (case firsts heap' main_chain' of
                                       Inl e \<Rightarrow> (Inl e, w')
                                     | Inr out \<Rightarrow> (Inr out, w')))))))"

lemma length_dict_set: "length (dict_set d k v) \<le> Suc (length d)"
  by (induction d) auto

lemma length_make_pairs:
  "length (fst (make_pairs comparator array i pairs w)) \<le> length pairs + (length array - i) div 2"
proof (induction comparator array i pairs w rule: make_pairs.induct)
  case (1 comparator array i pairs w)
  show ?case
  proof (cases "i + 1 < length array")
    case False
    then show ?thesis by (simp add: make_pairs.simps)
  next
    case True
    obtain c w' where ask: "ask comparator (array ! i, array ! (i + 1)) w = (c, w')"
      by (cases "ask comparator (array ! i, array ! (i + 1)) w")
    let ?p = "if c then dict_set pairs (array ! (i + 1)) (array ! i)
                else dict_set pairs (array ! i) (array ! (i + 1))"
    have "length (fst (make_pairs comparator array (i + 2) ?p w'))
        \<le> length ?p + (length array - (i + 2)) div 2"
      using "1.IH" [OF True ask [symmetric]] by simp
    moreover have "length ?p \<le> Suc (length pairs)" by (simp add: length_dict_set)
    moreover have "Suc ((length array - (i + 2)) div 2) = (length array - i) div 2"
      using True by presburger
    ultimately show ?thesis
      using True ask by (simp add: make_pairs.simps [of comparator array i])
  qed
qed

text \<open>
  \<^verbatim>\<open>
  async def merge_insertion_sort(array, comparator):
      if len(array)<1:
          return []
      if len(array)==1:
          return list(array)
      if len(array) != len(set(array)):
          raise ValueError('array may not contain duplicate items')
      if len(array)==2:
          return list(array) if await comparator((array[0], array[1])) else [array[1], array[0]]
      pairs = {}
      for i in range(0, len(array)-1, 2): ...
      larger = await merge_insertion_sort(list(pairs), comparator)
      ...
  \<close>
  The recursive call is on the keys of \<^verbatim>\<open>pairs\<close>, at most half as many as the items.
\<close>

function merge_insertion_sort ::
  "('a, 's) comparator \<Rightarrow> 'a list \<Rightarrow> ('a, 's) world \<Rightarrow> (error + 'a list) \<times> ('a, 's) world" where
  "merge_insertion_sort comparator array w =
     (if length array < 1 then (Inr [], w)
      else if length array = 1 then (Inr array, w)
      else if length array \<noteq> card (set array) then (Inl DuplicateItems, w)
      else if length array = 2 then
        (case ask comparator (array ! 0, array ! 1) w of
           (c, w') \<Rightarrow> (Inr (if c then array else [array ! 1, array ! 0]), w'))
      else
        (case make_pairs comparator array 0 [] w of
           (pairs, w1) \<Rightarrow>
             (case merge_insertion_sort comparator (map fst pairs) w1 of
                (Inl e, w2) \<Rightarrow> (Inl e, w2)
              | (Inr larger, w2) \<Rightarrow> insert_phase comparator array pairs larger w2)))"
  by pat_completeness auto
termination
proof (relation "measure (\<lambda>(comparator, array, w). length array)")
  show "wf (measure (\<lambda>(comparator :: ('a, 's) comparator, array :: 'a list, w :: ('a, 's) world). length array))"
    by simp
next
  fix comparator :: "('a, 's) comparator" and array :: "'a list" and w :: "('a, 's) world"
    and pairs :: "('a \<times> 'a) list" and w1 :: "('a, 's) world"
  assume len: "\<not> length array < 1" "length array \<noteq> 1" "length array \<noteq> 2"
    and x: "(pairs, w1) = make_pairs comparator array 0 [] w"
  have "length (fst (make_pairs comparator array 0 [] w)) \<le> length array div 2"
    using length_make_pairs [of comparator array 0 "[]" w] by simp
  then have "length pairs \<le> length array div 2"
    using x [symmetric] by simp
  moreover have "0 < length array" using len by simp
  ultimately have "length pairs < length array" by linarith
  then show "((comparator, map fst pairs, w1), (comparator, array, w))
      \<in> measure (\<lambda>(comparator, array, w). length array)"
    by simp
qed

declare merge_insertion_sort.simps [simp del]

declare make_groups_loop.simps [code]

subsection \<open>The state of the insertion loop\<close>

text \<open>
  \<open>placed\<close> is the sequence of first items of the slots of the main chain (the output
  sequence so far); \<open>pending\<close> lists, for the slots still queued, the item each will
  contribute: the last item of the slot (the smaller partner of a two-item slot, the
  only item of the leftover slot).
\<close>

definition placed :: "'a heap \<Rightarrow> ref list \<Rightarrow> 'a list" where
  "placed heap main_chain = map (\<lambda>r. hd (heap ! r)) main_chain"

definition pending :: "'a heap \<Rightarrow> ref list \<Rightarrow> 'a list" where
  "pending heap queue = map (\<lambda>r. last (heap ! r)) queue"

text \<open>
  Well-formedness of a loop state: main chain and queue hold no reference twice; a slot
  of the main chain has two items while it is queued and one item otherwise; a queued
  slot outside the main chain (the leftover) has one item; and no item occurs twice
  among the placed and the pending ones.
\<close>

definition chain_wf :: "'a heap \<Rightarrow> ref list \<Rightarrow> ref list \<Rightarrow> bool" where
  "chain_wf heap main_chain queue \<longleftrightarrow>
     distinct main_chain \<and> distinct queue
     \<and> (\<forall>r\<in>set main_chain. r < length heap
           \<and> length (heap ! r) = (if r \<in> set queue then 2 else 1))
     \<and> (\<forall>r\<in>set queue. r < length heap \<and> (r \<notin> set main_chain \<longrightarrow> length (heap ! r) = 1))
     \<and> distinct (placed heap main_chain @ pending heap queue)"

text \<open>The position of a reference in the main chain, and the part of the output
  sequence that the binary search for a queued slot looks at.\<close>

definition pos_in :: "ref list \<Rightarrow> ref \<Rightarrow> nat" where
  "pos_in main_chain r = length (takeWhile (\<lambda>e. e \<noteq> r) main_chain)"

definition target :: "'a heap \<Rightarrow> ref list \<Rightarrow> ref \<Rightarrow> 'a list" where
  "target heap main_chain r =
     (if r \<in> set main_chain then take (pos_in main_chain r) (placed heap main_chain)
      else placed heap main_chain)"

lemma firsts_placed:
  "\<forall>r\<in>set rs. heap ! r \<noteq> [] \<Longrightarrow> firsts heap rs = Inr (placed heap rs)"
proof (induction rs)
  case Nil
  show ?case by (simp add: placed_def)
next
  case (Cons r rs)
  then have "py_index (heap ! r) 0 = Inr (hd (heap ! r))"
    by (cases "heap ! r") (simp_all add: py_index_def)
  moreover have "firsts heap rs = Inr (placed heap rs)" using Cons by simp
  ultimately show ?case by (simp add: placed_def)
qed

lemma ident_find_pos:
  "r \<in> set main_chain \<Longrightarrow> ident_find main_chain r = Inr (pos_in main_chain r)"
  by (induction main_chain) (auto simp: pos_in_def)

lemma pos_in_less: "r \<in> set main_chain \<Longrightarrow> pos_in main_chain r < length main_chain"
  by (induction main_chain) (auto simp: pos_in_def)

lemma nth_pos_in: "r \<in> set main_chain \<Longrightarrow> main_chain ! pos_in main_chain r = r"
  by (induction main_chain) (auto simp: pos_in_def)

lemma take_pos_in: "r \<notin> set (take (pos_in main_chain r) main_chain)"
  unfolding pos_in_def by (metis set_takeWhileD takeWhile_eq_take)

lemma py_insert_nat:
  "k \<le> length xs \<Longrightarrow> py_insert xs (int k) x = take k xs @ x # drop k xs"
  by (simp add: py_insert_def Let_def min_def)

lemma placed_upd_other:
  "r \<notin> set rs \<Longrightarrow> placed (heap [r := s]) rs = placed heap rs"
  by (induction rs) (auto simp: placed_def)

lemma placed_append_heap:
  "\<forall>r\<in>set rs. r < length heap \<Longrightarrow> placed (heap @ extra) rs = placed heap rs"
  by (induction rs) (auto simp: placed_def nth_append)

lemma pending_upd_other:
  "r \<notin> set q \<Longrightarrow> pending (heap [r := s]) q = pending heap q"
  by (induction q) (auto simp: pending_def)

lemma pending_append_heap:
  "\<forall>r\<in>set q. r < length heap \<Longrightarrow> pending (heap @ extra) q = pending heap q"
  by (induction q) (auto simp: pending_def nth_append)

lemma placed_take: "placed heap (take k rs) = take k (placed heap rs)"
  by (simp add: placed_def take_map)

text \<open>In a well-formed state the body of the loop is one binary search and one insertion.\<close>

lemma insert_step_eq:
  assumes "chain_wf heap main_chain (r # q)"
  shows "insert_step comparator r heap main_chain w =
     (case bin_insert_index comparator (target heap main_chain r) (last (heap ! r)) w of
        (Inl e, w') \<Rightarrow> (Inl e, w')
      | (Inr idx, w') \<Rightarrow>
          (Inr (heap [r := [hd (heap ! r)]] @ [[last (heap ! r)]],
                py_insert main_chain idx (length heap)), w'))"
proof (cases "r \<in> set main_chain")
  case False
  have len: "length (heap ! r) = 1" and rl: "r < length heap"
    using assms False by (auto simp: chain_wf_def)
  then obtain x where x: "heap ! r = [x]" by (cases "heap ! r") auto
  have ne: "\<forall>r'\<in>set main_chain. heap ! r' \<noteq> []"
    using assms by (auto simp: chain_wf_def split: if_splits)
  have same: "heap [r := [hd (heap ! r)]] = heap" using x rl by (simp add: list_update_same_conv)
  show ?thesis
    using False x firsts_placed [OF ne] same
    by (simp add: insert_step_def target_def py_index_def split: prod.splits sum.splits)
next
  case True
  have len: "length (heap ! r) = 2" and rl: "r < length heap"
    using assms True by (auto simp: chain_wf_def)
  then obtain x y where xy: "heap ! r = [x, y]"
    by (cases "heap ! r"; cases "tl (heap ! r)") auto
  let ?p = "pos_in main_chain r"
  let ?heap1 = "heap [r := butlast (heap ! r)]"
  have notin: "r \<notin> set (take ?p main_chain)" by (rule take_pos_in)
  have ne: "\<forall>r'\<in>set (take ?p main_chain). ?heap1 ! r' \<noteq> []"
  proof
    fix r' assume r': "r' \<in> set (take ?p main_chain)"
    then have "r' \<in> set main_chain" by (rule in_set_takeD)
    moreover have "r' \<noteq> r" using r' notin by auto
    ultimately show "?heap1 ! r' \<noteq> []"
      using assms by (auto simp: chain_wf_def split: if_splits)
  qed
  have "firsts ?heap1 (take ?p main_chain) = Inr (placed ?heap1 (take ?p main_chain))"
    by (rule firsts_placed [OF ne])
  also have "placed ?heap1 (take ?p main_chain) = placed heap (take ?p main_chain)"
    by (rule placed_upd_other [OF notin])
  also have "\<dots> = take ?p (placed heap main_chain)"
    by (rule placed_take)
  finally have f: "firsts ?heap1 (take ?p main_chain) = Inr (target heap main_chain r)"
    using True by (simp add: target_def)
  have h1: "?heap1 = heap [r := [hd (heap ! r)]]" using xy by simp
  show ?thesis
    using True len f ident_find_pos [OF True] h1
    by (simp add: insert_step_def Let_def split: prod.splits sum.splits)
qed

end
